theory Spec2Isabelle
  imports Main
begin

section \<open>Data model\<close>

text \<open>
  A wire payload is what the codec hands to its callback and what the inner \<open>send\<close> of
  \<open>WebSocket.send\<close> receives as \<open>data\<close>. The adapter declares \<open>string | Buffer\<close>, but
  \<open>data\<close> is untyped there and the codec passes binary packet data through as it is, so
  the other binary kinds occur as well:
  \<^item> a JavaScript string, represented by its UTF-8 bytes (a \<open>string\<close> is a list of 8-bit
    characters);
  \<^item> a \<open>Buffer\<close>, the list of its bytes;
  \<^item> an \<open>ArrayBuffer\<close>, the list of its bytes;
  \<^item> a typed array (\<open>Uint16Array\<close>, \<open>Float64Array\<close>, ...), given by its
    \<open>BYTES_PER_ELEMENT\<close> and its elements;
  \<^item> a \<open>DataView\<close>, the list of the bytes it covers.
\<close>

type_synonym buffer = "nat list"

datatype wire_data =
    WString string
  | WBuffer buffer
  | WArrayBuffer buffer
  | WTypedArray nat "nat list"
  | WDataView buffer

text \<open>
  The byte length of a payload: \<open>Buffer.byteLength(data)\<close> for a string, the \<open>byteLength\<close>
  property for binary data.
\<close>

fun byteLength :: "wire_data \<Rightarrow> nat" where
  "byteLength (WString s) = length s"
| "byteLength (WBuffer b) = length b"
| "byteLength (WArrayBuffer b) = length b"
| "byteLength (WTypedArray bytes_per_element elements) = bytes_per_element * length elements"
| "byteLength (WDataView b) = length b"

text \<open>
  The length that the inner \<open>send\<close> computes:
  \<^verbatim>\<open>const len = "string" === typeof data ? Buffer.byteLength(data) : data.length;\<close>
  The property \<open>length\<close> of a \<open>Buffer\<close> is its number of bytes and that of a typed array
  its number of elements; an \<open>ArrayBuffer\<close> and a \<open>DataView\<close> have no such property, so
  \<open>len\<close> is \<open>undefined\<close> (\<open>None\<close>).
\<close>

fun payload_len :: "wire_data \<Rightarrow> nat option" where
  "payload_len (WString s) = Some (length s)"
| "payload_len (WBuffer b) = Some (length b)"
| "payload_len (WArrayBuffer b) = None"
| "payload_len (WTypedArray bytes_per_element elements) = Some (length elements)"
| "payload_len (WDataView b) = None"

text \<open>
  The test \<open>len < this.perMessageDeflate.threshold\<close>: a comparison with \<open>undefined\<close> is
  false.
\<close>

definition below_threshold :: "wire_data \<Rightarrow> int \<Rightarrow> bool" where
  "below_threshold data threshold =
     (case payload_len data of Some len \<Rightarrow> int len < threshold | None \<Rightarrow> False)"

text \<open>
  The frame computed by \<open>WebSocket.Sender.frame()\<close>: a list of buffers. The transport
  never looks inside it.
\<close>

type_synonym raw_frame = "buffer list"

text \<open>
  \<open>packet.options\<close>. Each field may be \<open>undefined\<close> (\<open>None\<close>). \<open>wsPreEncoded\<close> is
  declared \<open>string\<close>, so \<open>typeof wsPreEncoded === "string"\<close> holds exactly when the field
  is present.
\<close>

record packet_options =
  compress :: "bool option"
  wsPreEncoded :: "string option"
  wsPreEncodedFrame :: "raw_frame option"

record packet =
  ptype :: string
  pdata :: "wire_data option"
  options :: "packet_options option"

text \<open>The fresh per-packet object \<open>opts: { compress?: boolean }\<close>.\<close>

record send_opts =
  opts_compress :: "bool option"

text \<open>The \<open>err\<close> argument of a completion callback; \<open>None\<close> is a call without error.\<close>

datatype js_error = Error (stack: string)

text \<open>
  The closure \<open>onSent\<close> created in iteration \<open>i\<close> of the loop of \<open>send\<close>, represented by
  the variables of the iteration that it captures: the index \<open>i\<close> (which tells the
  closures of one batch apart) and \<open>isLast\<close>.
\<close>

datatype on_sent = OnSent (idx: nat) (isLast: bool)

text \<open>
  Calls that leave the transport, in the order in which they are made: to the socket
  adapter (\<open>socket.send\<close>, \<open>socket._sender.sendFrame\<close>, \<open>socket.close\<close>), to the codec
  (\<open>parser.encodePacket\<close>), to the base class (\<open>onError\<close>, \<open>onClose\<close>, \<open>emit\<close>) and to
  the callback given to \<open>doClose\<close>.
\<close>

datatype event =
    SocketSend wire_data send_opts on_sent
  | SenderSendFrame raw_frame on_sent
  | EncodePacket packet bool
  | SocketClose
  | OnError string string
  | OnClose
  | Emit string
  | CallFn nat

text \<open>
  The transport instance together with the part of its surroundings that \<open>send\<close> and
  \<open>doClose\<close> touch.
  \<^item> \<open>writable\<close>, \<open>supportsBinary\<close>, \<open>perMessageDeflate\<close> (\<open>None\<close> is \<open>null\<close>, \<open>Some t\<close>
    is \<open>{threshold: t}\<close>) are the fields of the class;
  \<^item> \<open>sendFrame_callable\<close> is \<open>typeof this.socket?._sender?.sendFrame === "function"\<close>;
  \<^item> \<open>encodePacket\<close> is the payload that \<open>this.parser.encodePacket\<close> hands to its
    callback;
  \<^item> \<open>close_listener\<close> tells whether the listener bound with
    \<open>this.socket.once("close", ...)\<close> is still registered;
  \<^item> \<open>pending\<close> holds the completion callbacks that the adapter has accepted and not
    yet called;
  \<^item> \<open>trace\<close> is the list of outgoing calls made so far.
\<close>

record websocket =
  writable :: bool
  supportsBinary :: bool
  perMessageDeflate :: "int option"
  sendFrame_callable :: bool
  encodePacket :: "packet \<Rightarrow> bool \<Rightarrow> wire_data"
  close_listener :: bool
  pending :: "on_sent list"
  trace :: "event list"

section \<open>Collaborators outside the transport\<close>

text \<open>
  Modelled from the spec: the base class \<open>Transport\<close> (\<open>../transport\<close>) is not among the
  sources. Its \<open>onError(msg, desc)\<close>, \<open>onClose()\<close> and \<open>emit(name)\<close> notify the upper
  protocol layer; each is recorded as an outgoing call and changes no field of the
  transport.
\<close>

definition onError :: "string \<Rightarrow> string \<Rightarrow> websocket \<Rightarrow> websocket" where
  "onError msg desc st = st\<lparr>trace := trace st @ [OnError msg desc]\<rparr>"

definition onClose :: "websocket \<Rightarrow> websocket" where
  "onClose st = st\<lparr>trace := trace st @ [OnClose]\<rparr>"

definition emit :: "string \<Rightarrow> websocket \<Rightarrow> websocket" where
  "emit name st = st\<lparr>trace := trace st @ [Emit name]\<rparr>"

text \<open>
  Modelled from the spec: the socket adapter (the \<open>ws\<close> library's socket) is not among the
  sources. \<open>send(payload, options, callback)\<close> and the raw-frame entry point
  \<open>_sender.sendFrame(frame, callback)\<close> take the write and keep the callback; completion
  is observed later, after \<open>send\<close> of the transport has returned, through one call of the
  callback (\<open>fire\<close> below; \<open>send_sync\<close> below also covers an adapter that calls the
  callback before its own \<open>send\<close> returns). \<open>close()\<close> is recorded. The calls return
  normally: an adapter or codec that throws is outside this model.
\<close>

definition socket_send :: "wire_data \<Rightarrow> send_opts \<Rightarrow> on_sent \<Rightarrow> websocket \<Rightarrow> websocket" where
  "socket_send data opts cb st =
     st\<lparr>trace := trace st @ [SocketSend data opts cb], pending := pending st @ [cb]\<rparr>"

definition sender_sendFrame :: "raw_frame \<Rightarrow> on_sent \<Rightarrow> websocket \<Rightarrow> websocket" where
  "sender_sendFrame frame cb st =
     st\<lparr>trace := trace st @ [SenderSendFrame frame cb], pending := pending st @ [cb]\<rparr>"

definition socket_close :: "websocket \<Rightarrow> websocket" where
  "socket_close st = st\<lparr>trace := trace st @ [SocketClose]\<rparr>"

text \<open>
  Modelled from the spec: the codec (\<open>this.parser\<close>) is not among the sources. Its contract
  is \<open>encodePacket(packet, supportsBinaryFlag, callback(encodedPayload))\<close>: the call is
  recorded and the callback receives the encoded payload before \<open>encodePacket\<close> returns.
\<close>

definition parser_encodePacket ::
  "packet \<Rightarrow> bool \<Rightarrow> (wire_data \<Rightarrow> websocket \<Rightarrow> websocket) \<Rightarrow> websocket \<Rightarrow> websocket" where
  "parser_encodePacket p sb callback st =
     callback (encodePacket st p sb) (st\<lparr>trace := trace st @ [EncodePacket p sb]\<rparr>)"

section \<open>The transport: \<open>src/lib/transports/websocket.ts\<close>\<close>

text \<open>
  The completion callback of \<open>send\<close>:
  \<^verbatim>\<open>if (err) return this.onError("write error", err.stack);
  else if (isLast) { this.writable = true; this.emit("drain"); }\<close>
\<close>

definition onSent :: "on_sent \<Rightarrow> js_error option \<Rightarrow> websocket \<Rightarrow> websocket" where
  "onSent cb err st =
     (case err of
        Some e \<Rightarrow> onError ''write error'' (stack e) st
      | None \<Rightarrow> if isLast cb then emit ''drain'' (st\<lparr>writable := True\<rparr>) else st)"

text \<open>
  The inner function \<open>send = (data) => {...}\<close> of \<open>WebSocket.send\<close>, with the \<open>opts\<close> and
  \<open>onSent\<close> of its iteration: when \<open>len\<close> is below the threshold \<open>opts.compress\<close> is set
  to \<open>false\<close>, then the payload goes to \<open>this.socket.send(data, opts, onSent)\<close>.
\<close>

definition send_data :: "send_opts \<Rightarrow> on_sent \<Rightarrow> wire_data \<Rightarrow> websocket \<Rightarrow> websocket" where
  "send_data opts cb data st =
     (let opts' =
        (case perMessageDeflate st of
           Some threshold \<Rightarrow>
             if below_threshold data threshold
             then opts\<lparr>opts_compress := Some False\<rparr> else opts
         | None \<Rightarrow> opts)
      in socket_send data opts' cb st)"

text \<open>
  \<open>_canSendPreEncodedFrame(packet)\<close>:
  \<^verbatim>\<open>!this.perMessageDeflate &&
  typeof this.socket?._sender?.sendFrame === "function" &&
  packet.options?.wsPreEncodedFrame !== undefined\<close>
\<close>

definition canSendPreEncodedFrame :: "websocket \<Rightarrow> packet \<Rightarrow> bool" where
  "canSendPreEncodedFrame st p =
     (perMessageDeflate st = None \<and> sendFrame_callable st \<and>
      (case options p of None \<Rightarrow> False | Some opt \<Rightarrow> wsPreEncodedFrame opt \<noteq> None))"

text \<open>
  The body of the loop of \<open>WebSocket.send\<close> for index \<open>i\<close>; the loop only runs it for
  \<open>i < packets.length\<close>. The three branches are in the order of the source. In the
  second one \<open>packet.options.wsPreEncodedFrame\<close> is read after
  \<open>_canSendPreEncodedFrame\<close> has found it present, so the two inner \<open>None\<close> cases are
  never reached.
\<close>

definition send_packet :: "nat \<Rightarrow> packet list \<Rightarrow> websocket \<Rightarrow> websocket" where
  "send_packet i packets st =
     (let p = packets ! i;
          last = (i + 1 = length packets);
          opts = (case options p of
                    Some opt \<Rightarrow> \<lparr>opts_compress = compress opt\<rparr>
                  | None \<Rightarrow> \<lparr>opts_compress = None\<rparr>);
          cb = OnSent i last
      in case (case options p of Some opt \<Rightarrow> wsPreEncoded opt | None \<Rightarrow> None) of
           Some pre \<Rightarrow> send_data opts cb (WString pre) st
         | None \<Rightarrow>
             if canSendPreEncodedFrame st p
             then (case options p of
                     Some opt \<Rightarrow>
                       (case wsPreEncodedFrame opt of
                          Some frame \<Rightarrow> sender_sendFrame frame cb st
                        | None \<Rightarrow> st)
                   | None \<Rightarrow> st)
             else parser_encodePacket p (supportsBinary st) (send_data opts cb) st)"

text \<open>\<open>for (let i = 0; i < packets.length; i++) { ... }\<close>\<close>

function send_loop :: "nat \<Rightarrow> packet list \<Rightarrow> websocket \<Rightarrow> websocket" where
  "send_loop i packets st =
     (if i < length packets then send_loop (i + 1) packets (send_packet i packets st) else st)"
  by pat_completeness auto
termination
  by (relation "measure (\<lambda>(i, packets, st). length packets - i)") auto

declare send_loop.simps [simp del]

text \<open>\<open>send(packets)\<close>: \<open>this.writable = false\<close>, then the loop.\<close>

definition send :: "packet list \<Rightarrow> websocket \<Rightarrow> websocket" where
  "send packets st = send_loop 0 packets (st\<lparr>writable := False\<rparr>)"

text \<open>
  \<open>doClose(fn)\<close>: \<open>this.socket.close(); fn && fn();\<close>. The callback is given by a name
  (\<open>None\<close>: no callback supplied); calling it is recorded.
\<close>

definition doClose :: "nat option \<Rightarrow> websocket \<Rightarrow> websocket" where
  "doClose fn st =
     (let st' = socket_close st
      in case fn of None \<Rightarrow> st' | Some f \<Rightarrow> st'\<lparr>trace := trace st' @ [CallFn f]\<rparr>)"

section \<open>The environment of the transport\<close>

text \<open>
  The adapter completes an accepted write by calling its callback once, with or without an
  error; the order in which writes complete is the adapter's. \<open>fire cb err\<close> is that call
  for a callback the adapter still holds (any other call is not one the adapter makes and
  is ignored); \<open>run\<close> performs a sequence of completions.
\<close>

definition fire :: "on_sent \<Rightarrow> js_error option \<Rightarrow> websocket \<Rightarrow> websocket" where
  "fire cb err st =
     (if cb \<in> set (pending st)
      then onSent cb err (st\<lparr>pending := remove1 cb (pending st)\<rparr>)
      else st)"

fun run :: "(on_sent \<times> js_error option) list \<Rightarrow> websocket \<Rightarrow> websocket" where
  "run [] st = st"
| "run ((cb, err) # sch) st = run sch (fire cb err st)"

text \<open>
  The adapter emits its own \<open>"close"\<close> event: the constructor bound
  \<open>this.socket.once("close", this.onClose.bind(this))\<close>, so the base close handler runs
  if the listener is still registered, and the listener is gone afterwards.
\<close>

definition socket_emits_close :: "websocket \<Rightarrow> websocket" where
  "socket_emits_close st =
     (if close_listener st then onClose (st\<lparr>close_listener := False\<rparr>) else st)"

text \<open>
  An adapter may also complete a write while \<open>send\<close> of the transport is still running,
  by calling the callback from inside its own \<open>send\<close> (for a socket that is no longer
  open, say). \<open>sync i\<close> is the sequence of completions that the adapter performs during
  iteration \<open>i\<close>, after the write of that iteration and before the loop goes on. The loop
  and \<open>send\<close> are as above; with \<open>sync i = []\<close> for all \<open>i\<close> they are \<open>send_loop\<close> and
  \<open>send\<close>.
\<close>

function send_loop_sync ::
  "(nat \<Rightarrow> (on_sent \<times> js_error option) list) \<Rightarrow> nat \<Rightarrow> packet list \<Rightarrow> websocket \<Rightarrow> websocket" where
  "send_loop_sync sync i packets st =
     (if i < length packets
      then send_loop_sync sync (i + 1) packets (run (sync i) (send_packet i packets st))
      else st)"
  by pat_completeness auto
termination
  by (relation "measure (\<lambda>(sync, i, packets, st). length packets - i)") auto

declare send_loop_sync.simps [simp del]

definition send_sync ::
  "(nat \<Rightarrow> (on_sent \<times> js_error option) list) \<Rightarrow> packet list \<Rightarrow> websocket \<Rightarrow> websocket" where
  "send_sync sync packets st = send_loop_sync sync 0 packets (st\<lparr>writable := False\<rparr>)"

text \<open>
  The states that arise when the upper protocol layer honours \<open>writable\<close>: the transport
  starts writable with no write accepted, \<open>send\<close> is only called while \<open>writable\<close> is
  true, writes complete in any order, the configuration may be set, and the transport
  may be closed.
\<close>

inductive cooperative :: "websocket \<Rightarrow> bool" where
  constructed: "writable st \<Longrightarrow> pending st = [] \<Longrightarrow> cooperative st"
| sends: "cooperative st \<Longrightarrow> writable st \<Longrightarrow> cooperative (send packets st)"
| completes: "cooperative st \<Longrightarrow> cooperative (fire cb err st)"
| configures: "cooperative st \<Longrightarrow> cooperative (st\<lparr>perMessageDeflate := c\<rparr>)"
| closes: "cooperative st \<Longrightarrow> cooperative (doClose fn st)"

section \<open>Observations on the trace\<close>

text \<open>The calls made between two states.\<close>

definition emitted :: "websocket \<Rightarrow> websocket \<Rightarrow> event list" where
  "emitted st st' = drop (length (trace st)) (trace st')"

text \<open>
  The write invocations received by the underlying channel: normal sends and verbatim
  pre-encoded-string sends (both \<open>socket.send\<close>) and raw-frame injections.
\<close>

fun is_write :: "event \<Rightarrow> bool" where
  "is_write (SocketSend d opts cb) = True"
| "is_write (SenderSendFrame f cb) = True"
| "is_write e = False"

definition writes :: "event list \<Rightarrow> event list" where
  "writes es = filter is_write es"

fun is_encode :: "event \<Rightarrow> bool" where
  "is_encode (EncodePacket p sb) = True"
| "is_encode e = False"

text \<open>The callback of the final packet of a batch of the given length.\<close>

definition last_callback :: "packet list \<Rightarrow> on_sent" where
  "last_callback packets = OnSent (length packets - 1) True"

text \<open>The callback that iteration \<open>k\<close> of the loop creates: \<open>isLast = (k + 1 === packets.length)\<close>.\<close>

definition batch_callback :: "packet list \<Rightarrow> nat \<Rightarrow> on_sent" where
  "batch_callback packets k = OnSent k (Suc k = length packets)"

section \<open>The calls of one packet in closed form\<close>

text \<open>
  The calls that one iteration of the loop makes, branch by branch in the priority order
  of step 5 of the specification; \<open>trace_send_packet\<close> below proves that the loop body
  makes exactly these calls.

  The standard send path: the options record carries the \<open>compress\<close> flag copied from the
  packet's options, set to \<open>false\<close> when compression is enabled and the test of the inner
  \<open>send\<close> (\<open>below_threshold\<close>) succeeds; payload, options and completion callback go to
  the adapter's \<open>send\<close>.
\<close>

definition standard_send_call :: "websocket \<Rightarrow> packet \<Rightarrow> on_sent \<Rightarrow> wire_data \<Rightarrow> event" where
  "standard_send_call st p cb d =
     SocketSend d
       \<lparr>opts_compress =
          (case perMessageDeflate st of
             Some t \<Rightarrow>
               if below_threshold d t then Some False
               else (case options p of Some opt \<Rightarrow> compress opt | None \<Rightarrow> None)
           | None \<Rightarrow> (case options p of Some opt \<Rightarrow> compress opt | None \<Rightarrow> None))\<rparr>
       cb"

text \<open>
  (a) A pre-encoded string is sent verbatim; (b) else, if compression is disabled, the
  adapter has a raw-frame entry point and the packet carries a frame, the frame is
  injected; (c) else the codec serializes the packet and the payload takes the standard
  send path. \<open>fast_path_eligible\<close> is the eligibility of (b), \<open>uses_codec\<close> tells whether
  (c) applies, \<open>packet_write\<close> is the one write that the packet causes and
  \<open>packet_calls\<close> all calls that it causes, in order.
\<close>

definition pre_encoded_string :: "packet \<Rightarrow> string option" where
  "pre_encoded_string p = (case options p of None \<Rightarrow> None | Some opt \<Rightarrow> wsPreEncoded opt)"

definition pre_encoded_frame :: "packet \<Rightarrow> raw_frame option" where
  "pre_encoded_frame p =
     (case options p of None \<Rightarrow> None | Some opt \<Rightarrow> wsPreEncodedFrame opt)"

definition fast_path_eligible :: "websocket \<Rightarrow> packet \<Rightarrow> bool" where
  "fast_path_eligible st p =
     (perMessageDeflate st = None \<and> sendFrame_callable st \<and> pre_encoded_frame p \<noteq> None)"

definition uses_codec :: "websocket \<Rightarrow> packet \<Rightarrow> bool" where
  "uses_codec st p = (pre_encoded_string p = None \<and> \<not> fast_path_eligible st p)"

definition packet_write :: "websocket \<Rightarrow> packet \<Rightarrow> on_sent \<Rightarrow> event" where
  "packet_write st p cb =
     (case pre_encoded_string p of
        Some x \<Rightarrow> standard_send_call st p cb (WString x)
      | None \<Rightarrow>
          (case pre_encoded_frame p of
             Some f \<Rightarrow>
               if fast_path_eligible st p then SenderSendFrame f cb
               else standard_send_call st p cb (encodePacket st p (supportsBinary st))
           | None \<Rightarrow> standard_send_call st p cb (encodePacket st p (supportsBinary st))))"

definition packet_calls :: "websocket \<Rightarrow> packet \<Rightarrow> on_sent \<Rightarrow> event list" where
  "packet_calls st p cb =
     (if uses_codec st p then [EncodePacket p (supportsBinary st)] else [])
       @ [packet_write st p cb]"

section \<open>The compression rule in the words of the specification\<close>

text \<open>
  Step 6 of the specification: if compression is enabled (\<open>perMessageDeflate\<close> non-null)
  and the payload's byte length is below \<open>perMessageDeflate.threshold\<close>, \<open>compress\<close> is
  \<open>false\<close> for this payload regardless of the flag requested by the packet; otherwise it
  is the requested flag.
\<close>

definition spec_compress :: "websocket \<Rightarrow> bool option \<Rightarrow> wire_data \<Rightarrow> bool option" where
  "spec_compress st requested d =
     (case perMessageDeflate st of
        Some t \<Rightarrow> if int (byteLength d) < t then Some False else requested
      | None \<Rightarrow> requested)"

text \<open>The number of \<open>"drain"\<close> notifications in a list of calls.\<close>

definition drains :: "event list \<Rightarrow> nat" where
  "drains es = count_list es (Emit ''drain'')"

section \<open>The factory: \<open>polling\<close>\<close>

text \<open>
  A value of the parsed query string: a string, or (for a repeated parameter) a list of
  strings. \<open>req._query\<close> maps parameter names to such values.
\<close>

datatype query_value = QString string | QArray "string list"

record prepared_request =
  url :: string
  query :: "string \<rightharpoonup> query_value"

text \<open>
  The two polling variants live in \<open>./polling\<close> and \<open>./polling-jsonp\<close>; \<open>new JSONP(req)\<close>
  and \<open>new XHR(req)\<close> are kept as the variant and the request it was constructed with.
\<close>

datatype polling_transport = JSONP prepared_request | XHR prepared_request

text \<open>\<open>"string" === typeof v\<close> for the value of a query parameter (\<open>None\<close>: absent).\<close>

fun typeof_string :: "query_value option \<Rightarrow> bool" where
  "typeof_string (Some (QString s)) = True"
| "typeof_string v = False"

text \<open>
  \<^verbatim>\<open>function polling(req) {
    if ("string" === typeof req._query.j) return new JSONP(req);
    else return new XHR(req);
  }\<close>
\<close>

definition polling :: "prepared_request \<Rightarrow> polling_transport" where
  "polling req = (if typeof_string (query req ''j'') then JSONP req else XHR req)"

section \<open>Example values\<close>

text \<open>
  A codec in the style of protocol 4: a text payload is the packet type followed by the
  data; binary data is passed through as it is when binary is supported. (Without binary
  support the protocol sends binary data base64-encoded; the examples all run with binary
  support, and this codec sends the bare packet type there.)
\<close>

definition example_codec :: "packet \<Rightarrow> bool \<Rightarrow> wire_data" where
  "example_codec p sb =
     (case pdata p of
        None \<Rightarrow> WString (ptype p)
      | Some (WString s) \<Rightarrow> WString (ptype p @ s)
      | Some d \<Rightarrow> if sb then d else WString (ptype p))"

text \<open>A transport as the constructor leaves it: writable, compression off.\<close>

definition example_ws :: websocket where
  "example_ws =
     \<lparr>writable = True, supportsBinary = True, perMessageDeflate = None,
      sendFrame_callable = True, encodePacket = example_codec, close_listener = True,
      pending = [], trace = []\<rparr>"

definition plain_packet :: packet where
  "plain_packet = \<lparr>ptype = ''4'', pdata = Some (WString ''hello''), options = None\<rparr>"

definition pre_packet :: packet where
  "pre_packet =
     \<lparr>ptype = ''4'', pdata = Some (WString ''hi''),
      options = Some \<lparr>compress = Some True, wsPreEncoded = Some ''X'',
                      wsPreEncodedFrame = Some [[129, 1, 88]]\<rparr>\<rparr>"

definition frame_packet :: packet where
  "frame_packet =
     \<lparr>ptype = ''4'', pdata = Some (WString ''hi''),
      options = Some \<lparr>compress = Some True, wsPreEncoded = None,
                      wsPreEncodedFrame = Some [[129, 3], [52, 104, 105]]\<rparr>\<rparr>"

text \<open>
  A message whose data is an \<open>ArrayBuffer\<close> of three bytes and which asks for compression.
\<close>

definition binary_packet :: packet where
  "binary_packet =
     \<lparr>ptype = ''4'', pdata = Some (WArrayBuffer [1, 2, 3]),
      options = Some \<lparr>compress = Some True, wsPreEncoded = None,
                      wsPreEncodedFrame = None\<rparr>\<rparr>"

definition example_batch :: "packet list" where
  "example_batch = [plain_packet, pre_packet, frame_packet]"

text \<open>The same transport with compression enabled, threshold 1024.\<close>

definition example_ws_deflate :: websocket where
  "example_ws_deflate = example_ws\<lparr>perMessageDeflate := Some 1024\<rparr>"

text \<open>Requests: with \<open>j=3\<close>, without \<open>j\<close>, and with \<open>j\<close> given twice.\<close>

definition request_j3 :: prepared_request where
  "request_j3 =
     \<lparr>url = ''/engine.io/?transport=polling&j=3'',
      query = [''transport'' \<mapsto> QString ''polling'', ''j'' \<mapsto> QString ''3'']\<rparr>"

definition request_plain :: prepared_request where
  "request_plain =
     \<lparr>url = ''/engine.io/?transport=polling'',
      query = [''transport'' \<mapsto> QString ''polling'']\<rparr>"

definition request_j_twice :: prepared_request where
  "request_j_twice =
     \<lparr>url = ''/engine.io/?transport=polling&j=1&j=2'',
      query = [''transport'' \<mapsto> QString ''polling'', ''j'' \<mapsto> QArray [''1'', ''2'']]\<rparr>"

text \<open>
  Completions: the adapter fails the first write at once, inside its \<open>send\<close>; later the
  second write fails and the third succeeds.
\<close>

definition example_sync :: "nat \<Rightarrow> (on_sent \<times> js_error option) list" where
  "example_sync i = (if i = 0 then [(OnSent 0 False, Some (Error ''boom''))] else [])"

definition example_schedule :: "(on_sent \<times> js_error option) list" where
  "example_schedule = [(OnSent 1 False, Some (Error ''late'')), (OnSent 2 True, None)]"
section \<open>The effect of one iteration and of the loop\<close>

lemmas dispatch_defs =
  packet_calls_def packet_write_def uses_codec_def fast_path_eligible_def pre_encoded_frame_def
  pre_encoded_string_def standard_send_call_def

lemma below_threshold_simps [simp]:
  "below_threshold (WString s) t = (int (length s) < t)"
  "below_threshold (WBuffer b) t = (int (length b) < t)"
  "below_threshold (WArrayBuffer b) t = False"
  "below_threshold (WTypedArray w es) t = (int (length es) < t)"
  "below_threshold (WDataView b) t = False"
  by (simp_all add: below_threshold_def)

lemma send_data_fields [simp]:
  "writable (send_data opts cb d st) = writable st"
  "supportsBinary (send_data opts cb d st) = supportsBinary st"
  "perMessageDeflate (send_data opts cb d st) = perMessageDeflate st"
  "sendFrame_callable (send_data opts cb d st) = sendFrame_callable st"
  "encodePacket (send_data opts cb d st) = encodePacket st"
  "close_listener (send_data opts cb d st) = close_listener st"
  "pending (send_data opts cb d st) = pending st @ [cb]"
  by (simp_all add: send_data_def socket_send_def Let_def)

lemma send_packet_fields [simp]:
  "writable (send_packet i ps st) = writable st"
  "supportsBinary (send_packet i ps st) = supportsBinary st"
  "perMessageDeflate (send_packet i ps st) = perMessageDeflate st"
  "sendFrame_callable (send_packet i ps st) = sendFrame_callable st"
  "encodePacket (send_packet i ps st) = encodePacket st"
  "close_listener (send_packet i ps st) = close_listener st"
  by (simp_all add: send_packet_def parser_encodePacket_def sender_sendFrame_def
        canSendPreEncodedFrame_def Let_def split: option.splits)

lemma pending_send_packet:
  "pending (send_packet i ps st) = pending st @ [OnSent i (Suc i = length ps)]"
  by (simp add: send_packet_def parser_encodePacket_def sender_sendFrame_def
        canSendPreEncodedFrame_def Let_def split: option.splits)

lemma trace_send_packet:
  "trace (send_packet i ps st) = trace st @ packet_calls st (ps ! i) (OnSent i (Suc i = length ps))"
  by (auto simp add: send_packet_def parser_encodePacket_def sender_sendFrame_def send_data_def
        socket_send_def dispatch_defs canSendPreEncodedFrame_def Let_def split: option.splits)

lemma packet_calls_send_packet [simp]:
  "packet_calls (send_packet i ps st) = packet_calls st"
  by (intro ext) (auto simp add: dispatch_defs split: option.splits)

lemma packet_calls_writable [simp]:
  "packet_calls (st\<lparr>writable := b\<rparr>) = packet_calls st"
  by (intro ext) (auto simp add: dispatch_defs split: option.splits)

lemma send_loop_fields [simp]:
  "writable (send_loop i ps st) = writable st"
  "supportsBinary (send_loop i ps st) = supportsBinary st"
  "perMessageDeflate (send_loop i ps st) = perMessageDeflate st"
  "sendFrame_callable (send_loop i ps st) = sendFrame_callable st"
  "encodePacket (send_loop i ps st) = encodePacket st"
  "close_listener (send_loop i ps st) = close_listener st"
  by (induction i ps st rule: send_loop.induct, subst send_loop.simps, simp)+

lemma trace_send_loop:
  "trace (send_loop i ps st) =
     trace st @ concat (map (\<lambda>k. packet_calls st (ps ! k) (batch_callback ps k)) [i..<length ps])"
proof (induction i ps st rule: send_loop.induct)
  case (1 i ps st)
  show ?case
  proof (cases "i < length ps")
    case True
    then have "trace (send_loop i ps st) = trace (send_loop (i + 1) ps (send_packet i ps st))"
      by (subst send_loop.simps) simp
    also have "\<dots> = trace st @ packet_calls st (ps ! i) (batch_callback ps i)
        @ concat (map (\<lambda>k. packet_calls st (ps ! k) (batch_callback ps k)) [Suc i..<length ps])"
      using 1 True by (simp add: trace_send_packet batch_callback_def)
    finally show ?thesis using True by (simp add: upt_conv_Cons)
  next
    case False
    then show ?thesis by (subst send_loop.simps) simp
  qed
qed

lemma pending_send_loop:
  "pending (send_loop i ps st) = pending st @ map (batch_callback ps) [i..<length ps]"
proof (induction i ps st rule: send_loop.induct)
  case (1 i ps st)
  show ?case
  proof (cases "i < length ps")
    case True
    then have "pending (send_loop i ps st) = pending (send_loop (i + 1) ps (send_packet i ps st))"
      by (subst send_loop.simps) simp
    also have "\<dots> = pending st @ batch_callback ps i # map (batch_callback ps) [Suc i..<length ps]"
      using 1 True by (simp add: pending_send_packet batch_callback_def)
    finally show ?thesis using True by (simp add: upt_conv_Cons)
  next
    case False
    then show ?thesis by (subst send_loop.simps) simp
  qed
qed

lemma trace_send:
  "trace (send ps st) =
     trace st @ concat (map (\<lambda>k. packet_calls st (ps ! k) (batch_callback ps k)) [0..<length ps])"
  by (simp add: send_def trace_send_loop)

lemma pending_send:
  "pending (send ps st) = pending st @ map (batch_callback ps) [0..<length ps]"
  by (simp add: send_def pending_send_loop)

lemma emitted_send:
  "emitted st (send ps st) =
     concat (map (\<lambda>k. packet_calls st (ps ! k) (batch_callback ps k)) [0..<length ps])"
  by (simp add: emitted_def trace_send)

section \<open>Completions\<close>

lemma onSent_fields [simp]:
  "supportsBinary (onSent cb err st) = supportsBinary st"
  "perMessageDeflate (onSent cb err st) = perMessageDeflate st"
  "sendFrame_callable (onSent cb err st) = sendFrame_callable st"
  "encodePacket (onSent cb err st) = encodePacket st"
  "close_listener (onSent cb err st) = close_listener st"
  "pending (onSent cb err st) = pending st"
  by (simp_all add: onSent_def onError_def emit_def split: option.splits)

lemma pending_fire:
  "pending (fire cb err st) = remove1 cb (pending st)"
  by (simp add: fire_def remove1_idem)

lemma writable_fire:
  "writable (fire cb err st) =
     (writable st \<or> (cb \<in> set (pending st) \<and> isLast cb \<and> err = None))"
  by (auto simp add: fire_def onSent_def onError_def emit_def split: option.splits)

lemma drains_append [simp]: "drains (xs @ ys) = drains xs + drains ys"
  by (simp add: drains_def)

lemma drains_fire:
  "drains (trace (fire cb err st)) =
     drains (trace st) + (if cb \<in> set (pending st) \<and> isLast cb \<and> err = None then 1 else 0)"
  by (auto simp add: fire_def onSent_def onError_def emit_def drains_def split: option.splits)

lemma run_no_last:
  "filter isLast (pending st) = [] \<Longrightarrow>
     writable (run sch st) = writable st \<and> drains (trace (run sch st)) = drains (trace st)"
proof (induction sch arbitrary: st)
  case Nil
  then show ?case by simp
next
  case (Cons step sch)
  obtain cb err where step: "step = (cb, err)" by (cases step)
  have nl: "cb \<in> set (pending st) \<Longrightarrow> \<not> isLast cb"
    using Cons.prems by (auto simp: filter_empty_conv)
  have "filter isLast (pending (fire cb err st)) = []"
    using Cons.prems by (simp add: pending_fire filter_remove1)
  from Cons.IH [OF this] show ?case
    using nl by (auto simp: step writable_fire drains_fire)
qed

lemma run_one_last:
  assumes "filter isLast (pending st) = [c]" and "\<not> writable st"
  shows "writable (run sch st) = (map_of sch c = Some None) \<and>
         drains (trace (run sch st)) =
           drains (trace st) + (if map_of sch c = Some None then 1 else 0)"
  using assms
proof (induction sch arbitrary: st)
  case Nil
  then show ?case by simp
next
  case (Cons step sch)
  obtain cb err where step: "step = (cb, err)" by (cases step)
  have "c \<in> set (filter isLast (pending st))"
    using Cons.prems(1) by simp
  then have c_in: "c \<in> set (pending st)" and c_last: "isLast c"
    by simp_all
  show ?case
  proof (cases "cb = c")
    case True
    have "filter isLast (pending (fire cb err st)) = []"
      using Cons.prems(1) True by (simp add: pending_fire filter_remove1)
    from run_no_last [OF this, of sch] show ?thesis
      using True c_in c_last Cons.prems(2)
      by (auto simp: step writable_fire drains_fire)
  next
    case False
    have nl: "cb \<in> set (pending st) \<Longrightarrow> \<not> isLast cb"
    proof
      assume "cb \<in> set (pending st)" "isLast cb"
      then have "cb \<in> set (filter isLast (pending st))" by simp
      with Cons.prems(1) False show False by simp
    qed
    have f: "filter isLast (pending (fire cb err st)) = [c]"
      using Cons.prems(1) False by (simp add: pending_fire filter_remove1)
    have w: "\<not> writable (fire cb err st)"
      using Cons.prems(2) nl by (auto simp: writable_fire)
    from Cons.IH [OF f w] show ?thesis
      using False nl by (auto simp: step drains_fire)
  qed
qed

section \<open>One batch and its completions\<close>

lemma isLast_batch_callbacks:
  "filter isLast (map (batch_callback ps) [0..<length ps]) = (if ps = [] then [] else [last_callback ps])"
proof (cases ps rule: rev_cases)
  case Nil
  then show ?thesis by simp
next
  case (snoc qs q)
  have "filter isLast (map (batch_callback ps) [0..<length qs]) = []"
    by (auto simp: filter_empty_conv batch_callback_def snoc)
  then show ?thesis
    by (simp add: snoc batch_callback_def last_callback_def)
qed

lemma pending_send_last:
  "filter isLast (pending st) = [] \<Longrightarrow>
     filter isLast (pending (send ps st)) = (if ps = [] then [] else [last_callback ps])"
  by (simp add: pending_send isLast_batch_callbacks)

lemma writable_send: "\<not> writable (send ps st)"
  by (simp add: send_def)

lemma drains_packet_calls [simp]: "drains (packet_calls st p cb) = 0"
  by (simp add: dispatch_defs drains_def split: option.splits)

lemma drains_concat_zero: "(\<And>x. x \<in> set xs \<Longrightarrow> drains (f x) = 0) \<Longrightarrow> drains (concat (map f xs)) = 0"
  by (induction xs) (simp_all add: drains_def)

lemma drains_send: "drains (trace (send ps st)) = drains (trace st)"
  by (simp add: trace_send drains_concat_zero)

section \<open>The calls of a batch\<close>

lemma is_write_packet_write [simp]: "is_write (packet_write st p cb)"
  by (simp add: dispatch_defs split: option.splits)

lemma writes_packet_calls: "writes (packet_calls st p cb) = [packet_write st p cb]"
  by (simp add: packet_calls_def writes_def)

lemma writes_concat_singleton:
  "(\<And>x. writes (f x) = [g x]) \<Longrightarrow> writes (concat (map f xs)) = map g xs"
proof (induction xs)
  case Nil
  then show ?case by (simp add: writes_def)
next
  case (Cons x xs)
  then have "writes (f x @ concat (map f xs)) = g x # map g xs"
    unfolding writes_def by (simp del: filter_concat)
  then show ?case by simp
qed

lemma writes_emitted_send:
  "writes (emitted st (send ps st)) =
     map (\<lambda>k. packet_write st (ps ! k) (batch_callback ps k)) [0..<length ps]"
  unfolding emitted_send by (rule writes_concat_singleton) (rule writes_packet_calls)

lemma set_emitted_send:
  "e \<in> set (emitted st (send ps st)) \<longleftrightarrow>
     (\<exists>k<length ps. e \<in> set (packet_calls st (ps ! k) (batch_callback ps k)))"
  by (auto simp: emitted_send)

lemma map_enumerate_nth:
  "map (\<lambda>(k, p). F k p) (enumerate 0 ps) = map (\<lambda>k. F k (ps ! k)) [0..<length ps]"
  by (rule nth_equalityI) (simp_all add: nth_enumerate_eq)

section \<open>Where each packet goes\<close>

lemma nth_writes_send:
  "i < length ps \<Longrightarrow>
     writes (emitted st (send ps st)) ! i = packet_write st (ps ! i) (batch_callback ps i)"
  by (simp add: writes_emitted_send)

lemma encode_in_packet_calls:
  "EncodePacket q sb \<in> set (packet_calls st p cb) \<longleftrightarrow>
     (q = p \<and> sb = supportsBinary st \<and> uses_codec st p)"
  by (auto simp: packet_calls_def packet_write_def standard_send_call_def split: option.splits)

lemma encode_in_emitted_send:
  "EncodePacket q sb \<in> set (emitted st (send ps st)) \<longleftrightarrow>
     (q \<in> set ps \<and> sb = supportsBinary st \<and> uses_codec st q)"
  unfolding set_emitted_send encode_in_packet_calls
  by (auto simp: in_set_conv_nth)

lemma socket_send_in_packet_calls:
  "SocketSend d opts cb' \<in> set (packet_calls st p cb) \<Longrightarrow>
     perMessageDeflate st = Some t \<Longrightarrow> below_threshold d t \<Longrightarrow>
     opts_compress opts = Some False"
  by (auto simp: dispatch_defs split: option.splits if_splits)

lemmas example_defs =
  example_batch_def example_ws_deflate_def example_ws_def plain_packet_def pre_packet_def
  frame_packet_def example_codec_def

lemma example_emitted_deflate:
  "emitted example_ws_deflate (send example_batch example_ws_deflate) =
     [EncodePacket plain_packet True,
      SocketSend (WString ''4hello'') \<lparr>opts_compress = Some False\<rparr> (OnSent 0 False),
      SocketSend (WString ''X'') \<lparr>opts_compress = Some False\<rparr> (OnSent 1 False),
      EncodePacket frame_packet True,
      SocketSend (WString ''4hi'') \<lparr>opts_compress = Some False\<rparr> (OnSent 2 True)]"
  by (simp add: emitted_send upt_conv_Cons dispatch_defs batch_callback_def example_defs)

section \<open>Completions while the loop runs\<close>

lemma send_loop_sync_none: "send_loop_sync (\<lambda>_. []) i ps st = send_loop i ps st"
proof (induction i ps st rule: send_loop.induct)
  case (1 i ps st)
  show ?case
  proof (cases "i < length ps")
    case True
    with 1 show ?thesis
      by (subst send_loop_sync.simps, subst send_loop.simps) simp
  next
    case False
    then show ?thesis
      by (subst send_loop_sync.simps, subst send_loop.simps) simp
  qed
qed

lemma send_sync_none: "send_sync (\<lambda>_. []) ps st = send ps st"
  by (simp add: send_sync_def send_def send_loop_sync_none)

lemma fire_fields [simp]:
  "supportsBinary (fire cb err st) = supportsBinary st"
  "perMessageDeflate (fire cb err st) = perMessageDeflate st"
  "sendFrame_callable (fire cb err st) = sendFrame_callable st"
  "encodePacket (fire cb err st) = encodePacket st"
  "close_listener (fire cb err st) = close_listener st"
  by (simp_all add: fire_def)

lemma run_fields [simp]:
  "supportsBinary (run sch st) = supportsBinary st"
  "perMessageDeflate (run sch st) = perMessageDeflate st"
  "sendFrame_callable (run sch st) = sendFrame_callable st"
  "encodePacket (run sch st) = encodePacket st"
  "close_listener (run sch st) = close_listener st"
  by (induction sch st rule: run.induct, simp, simp)+

lemma run_append: "run (a @ b) st = run b (run a st)"
  by (induction a st rule: run.induct) simp_all

lemma packet_calls_cong:
  "supportsBinary s = supportsBinary s' \<Longrightarrow> perMessageDeflate s = perMessageDeflate s' \<Longrightarrow>
   sendFrame_callable s = sendFrame_callable s' \<Longrightarrow> encodePacket s = encodePacket s' \<Longrightarrow>
   packet_calls s = packet_calls s' \<and> packet_write s = packet_write s'"
  by (intro conjI ext) (simp_all add: dispatch_defs cong: option.case_cong if_cong)

lemma dispatch_run [simp]:
  "packet_calls (run sch st) = packet_calls st" "packet_write (run sch st) = packet_write st"
  using packet_calls_cong [of "run sch st" st] by simp_all

lemma packet_write_send_packet [simp]: "packet_write (send_packet i ps st) = packet_write st"
  using packet_calls_cong [of "send_packet i ps st" st] by simp

lemma packet_write_writable [simp]: "packet_write (st\<lparr>writable := b\<rparr>) = packet_write st"
  using packet_calls_cong [of "st\<lparr>writable := b\<rparr>" st] by simp

text \<open>What one completion adds to the trace.\<close>

lemma trace_fire:
  "trace (fire cb err st) =
     trace st @
       (if cb \<in> set (pending st)
        then (case err of
                Some e \<Rightarrow> [OnError ''write error'' (stack e)]
              | None \<Rightarrow> if isLast cb then [Emit ''drain''] else [])
        else [])"
  by (simp add: fire_def onSent_def onError_def emit_def split: option.splits)

lemma trace_fire_grows:
  "\<exists>es. trace (fire cb err st) = trace st @ es \<and> writes es = []"
  by (simp add: trace_fire writes_def split: option.splits)

lemma trace_run_grows:
  "\<exists>es. trace (run sch st) = trace st @ es \<and> writes es = []"
proof (induction sch arbitrary: st)
  case Nil
  then show ?case by (simp add: writes_def)
next
  case (Cons step sch)
  obtain cb err where step: "step = (cb, err)" by (cases step)
  obtain es where es: "trace (fire cb err st) = trace st @ es" "writes es = []"
    using trace_fire_grows by blast
  obtain es' where es': "trace (run sch (fire cb err st)) = trace (fire cb err st) @ es'"
      "writes es' = []"
    using Cons.IH by blast
  have "trace (run (step # sch) st) = trace st @ (es @ es')" "writes (es @ es') = []"
    using es es' by (simp_all add: step writes_def)
  then show ?case by blast
qed

lemma writes_append [simp]: "writes (a @ b) = writes a @ writes b"
  by (simp add: writes_def)

lemma trace_send_loop_sync:
  "\<exists>es. trace (send_loop_sync sync i ps st) = trace st @ es \<and>
        writes es = map (\<lambda>k. packet_write st (ps ! k) (batch_callback ps k)) [i..<length ps]"
proof (induction sync i ps st rule: send_loop_sync.induct)
  case (1 sync i ps st)
  show ?case
  proof (cases "i < length ps")
    case True
    let ?s1 = "send_packet i ps st" and ?s2 = "run (sync i) (send_packet i ps st)"
    obtain es2 where es2: "trace ?s2 = trace ?s1 @ es2" "writes es2 = []"
      using trace_run_grows by blast
    obtain es3 where es3: "trace (send_loop_sync sync (i + 1) ps ?s2) = trace ?s2 @ es3"
        "writes es3 = map (\<lambda>k. packet_write ?s2 (ps ! k) (batch_callback ps k)) [i + 1..<length ps]"
      using 1 True by blast
    let ?es = "packet_calls st (ps ! i) (batch_callback ps i) @ es2 @ es3"
    have "trace (send_loop_sync sync i ps st) = trace st @ ?es"
      using True es2 es3
      by (subst send_loop_sync.simps) (simp add: trace_send_packet batch_callback_def)
    moreover have "writes ?es =
        map (\<lambda>k. packet_write st (ps ! k) (batch_callback ps k)) [i..<length ps]"
      using True es2 es3 by (simp add: writes_packet_calls upt_conv_Cons)
    ultimately show ?thesis by blast
  next
    case False
    then show ?thesis
      by (subst send_loop_sync.simps) (simp add: writes_def)
  qed
qed

lemma writes_send_sync_run:
  "writes (emitted st (run sch (send_sync sync ps st))) =
     map (\<lambda>k. packet_write st (ps ! k) (batch_callback ps k)) [0..<length ps]"
proof -
  obtain es where es: "trace (send_sync sync ps st) = trace st @ es"
      "writes es = map (\<lambda>k. packet_write st (ps ! k) (batch_callback ps k)) [0..<length ps]"
    using trace_send_loop_sync [of sync 0 ps "st\<lparr>writable := False\<rparr>"]
    by (auto simp: send_sync_def)
  obtain es' where es': "trace (run sch (send_sync sync ps st)) = trace (send_sync sync ps st) @ es'"
      "writes es' = []"
    using trace_run_grows by blast
  show ?thesis
    using es es' by (simp add: emitted_def)
qed

lemma pending_run_keeps:
  "cb \<in> set (pending st) \<Longrightarrow> map_of sch cb = None \<Longrightarrow> cb \<in> set (pending (run sch st))"
proof (induction sch st rule: run.induct)
  case (1 st)
  then show ?case by simp
next
  case (2 c r sch st)
  from "2.prems"(2) have ne: "c \<noteq> cb" and rest: "map_of sch cb = None"
    by (auto split: if_splits)
  from "2.prems"(1) ne have "cb \<in> set (pending (fire c r st))"
    by (simp add: pending_fire)
  from "2.IH" [OF this rest] show ?case by simp
qed

lemma no_last_run:
  "filter isLast (pending st) = [] \<Longrightarrow> filter isLast (pending (run sch st)) = []"
proof (induction sch st rule: run.induct)
  case (1 st)
  then show ?case by simp
next
  case (2 c r sch st)
  then have "filter isLast (pending (fire c r st)) = []"
    by (simp add: pending_fire filter_remove1)
  from "2.IH" [OF this] show ?case by simp
qed

lemma error_routed_run:
  "cb \<in> set (pending st) \<Longrightarrow> map_of sch cb = Some (Some e) \<Longrightarrow>
     \<exists>es. trace (run sch st) = trace st @ es \<and> OnError ''write error'' (stack e) \<in> set es"
proof (induction sch st rule: run.induct)
  case (1 st)
  then show ?case by simp
next
  case (2 c r sch st)
  show ?case
  proof (cases "c = cb")
    case True
    with "2.prems" have r: "r = Some e" by simp
    have "trace (fire c r st) = trace st @ [OnError ''write error'' (stack e)]"
      using True r "2.prems"(1) by (simp add: trace_fire)
    moreover obtain es' where "trace (run sch (fire c r st)) = trace (fire c r st) @ es'"
      using trace_run_grows by blast
    ultimately have "trace (run ((c, r) # sch) st) =
        trace st @ (OnError ''write error'' (stack e) # es')"
      by simp
    then show ?thesis by (metis list.set_intros(1))
  next
    case False
    with "2.prems" have "cb \<in> set (pending (fire c r st))" and "map_of sch cb = Some (Some e)"
      by (simp_all add: pending_fire)
    from "2.IH" [OF this] obtain es' where
      es': "trace (run sch (fire c r st)) = trace (fire c r st) @ es'"
           "OnError ''write error'' (stack e) \<in> set es'"
      by blast
    obtain es0 where "trace (fire c r st) = trace st @ es0"
      using trace_fire_grows by blast
    with es' have "trace (run ((c, r) # sch) st) = trace st @ (es0 @ es')"
        "OnError ''write error'' (stack e) \<in> set (es0 @ es')"
      by simp_all
    then show ?thesis by blast
  qed
qed

lemma trace_run_send_loop_sync_grows:
  "\<exists>es. trace (run sch (send_loop_sync sync i ps st)) = trace st @ es"
proof -
  obtain es where "trace (send_loop_sync sync i ps st) = trace st @ es"
    using trace_send_loop_sync by blast
  moreover obtain es' where
    "trace (run sch (send_loop_sync sync i ps st)) = trace (send_loop_sync sync i ps st) @ es'"
    using trace_run_grows by blast
  ultimately show ?thesis by simp
qed

lemma map_of_append_cases:
  "map_of (xs @ ys) k = (case map_of xs k of None \<Rightarrow> map_of ys k | Some v \<Rightarrow> Some v)"
  by (simp add: map_add_def split: option.splits)

lemma error_routed_loop_pending:
  "cb \<in> set (pending st) \<or> (i < length ps \<and> cb = batch_callback ps i) \<Longrightarrow>
   map_of (concat (map sync [i..<length ps]) @ sch) cb = Some (Some e) \<Longrightarrow>
     \<exists>es. trace (run sch (send_loop_sync sync i ps st)) = trace st @ es \<and>
          OnError ''write error'' (stack e) \<in> set es"
proof (induction sync i ps st rule: send_loop_sync.induct)
  case (1 sync i ps st)
  show ?case
  proof (cases "i < length ps")
    case False
    then have "send_loop_sync sync i ps st = st"
      by (subst send_loop_sync.simps) simp
    with False "1.prems" show ?thesis
      by (simp add: error_routed_run)
  next
    case True
    let ?s1 = "send_packet i ps st"
    let ?s2 = "run (sync i) ?s1"
    let ?rest = "concat (map sync [i + 1..<length ps]) @ sch"
    have unfold: "send_loop_sync sync i ps st = send_loop_sync sync (i + 1) ps ?s2"
      using True by (subst send_loop_sync.simps) simp
    have s1: "trace ?s1 = trace st @ packet_calls st (ps ! i) (batch_callback ps i)"
      by (simp add: trace_send_packet batch_callback_def)
    have in1: "cb \<in> set (pending ?s1)"
      using "1.prems"(1) by (auto simp: pending_send_packet batch_callback_def)
    have sched: "map_of (sync i @ ?rest) cb = Some (Some e)"
      using "1.prems"(2) True by (simp add: upt_conv_Cons)
    show ?thesis
    proof (cases "map_of (sync i) cb")
      case None
      with sched have rest: "map_of ?rest cb = Some (Some e)"
        by (simp only: map_of_append_cases) simp
      from in1 None have "cb \<in> set (pending ?s2)"
        by (rule pending_run_keeps)
      then have "cb \<in> set (pending ?s2) \<or> (i + 1 < length ps \<and> cb = batch_callback ps (i + 1))"
        by simp
      from "1.IH" [OF True this rest] obtain es where
        es: "trace (run sch (send_loop_sync sync (i + 1) ps ?s2)) = trace ?s2 @ es"
            "OnError ''write error'' (stack e) \<in> set es"
        by blast
      obtain es2 where "trace ?s2 = trace ?s1 @ es2"
        using trace_run_grows by blast
      with es s1 have
        "trace (run sch (send_loop_sync sync i ps st)) =
           trace st @ (packet_calls st (ps ! i) (batch_callback ps i) @ es2 @ es)"
        "OnError ''write error'' (stack e)
           \<in> set (packet_calls st (ps ! i) (batch_callback ps i) @ es2 @ es)"
        by (simp_all add: unfold)
      then show ?thesis by blast
    next
      case (Some r)
      with sched have "map_of (sync i) cb = Some (Some e)"
        by (simp only: map_of_append_cases) simp
      from error_routed_run [OF in1 this] obtain es2 where
        es2: "trace ?s2 = trace ?s1 @ es2" "OnError ''write error'' (stack e) \<in> set es2"
        by blast
      obtain es where "trace (run sch (send_loop_sync sync (i + 1) ps ?s2)) = trace ?s2 @ es"
        using trace_run_send_loop_sync_grows by blast
      with es2 s1 have
        "trace (run sch (send_loop_sync sync i ps st)) =
           trace st @ (packet_calls st (ps ! i) (batch_callback ps i) @ es2 @ es)"
        "OnError ''write error'' (stack e)
           \<in> set (packet_calls st (ps ! i) (batch_callback ps i) @ es2 @ es)"
        by (simp_all add: unfold)
      then show ?thesis by blast
    qed
  qed
qed

lemma error_routed_loop:
  "i \<le> k \<Longrightarrow> k < length ps \<Longrightarrow>
   map_of (concat (map sync [k..<length ps]) @ sch) (batch_callback ps k) = Some (Some e) \<Longrightarrow>
     \<exists>es. trace (run sch (send_loop_sync sync i ps st)) = trace st @ es \<and>
          OnError ''write error'' (stack e) \<in> set es"
proof (induction sync i ps st rule: send_loop_sync.induct)
  case (1 sync i ps st)
  show ?case
  proof (cases "i = k")
    case True
    with "1.prems" show ?thesis
      by (intro error_routed_loop_pending) simp_all
  next
    case False
    with "1.prems" have lt: "i < length ps" and le: "i + 1 \<le> k"
      by simp_all
    let ?s1 = "send_packet i ps st"
    let ?s2 = "run (sync i) ?s1"
    have unfold: "send_loop_sync sync i ps st = send_loop_sync sync (i + 1) ps ?s2"
      using lt by (subst send_loop_sync.simps) simp
    from "1.IH" [OF lt le "1.prems"(2,3)] obtain es where
      es: "trace (run sch (send_loop_sync sync (i + 1) ps ?s2)) = trace ?s2 @ es"
          "OnError ''write error'' (stack e) \<in> set es"
      by blast
    obtain es2 where "trace ?s2 = trace ?s1 @ es2"
      using trace_run_grows by blast
    with es have
      "trace (run sch (send_loop_sync sync i ps st)) =
         trace st @ (packet_calls st (ps ! i) (batch_callback ps i) @ es2 @ es)"
      "OnError ''write error'' (stack e)
         \<in> set (packet_calls st (ps ! i) (batch_callback ps i) @ es2 @ es)"
      by (simp_all add: unfold trace_send_packet batch_callback_def)
    then show ?thesis by blast
  qed
qed

lemma last_completion_loop:
  "filter isLast (pending st) = [] \<Longrightarrow> \<not> writable st \<Longrightarrow> i < length ps \<Longrightarrow>
     writable (run sch (send_loop_sync sync i ps st)) =
       (map_of (sync (length ps - 1) @ sch) (last_callback ps) = Some None) \<and>
     drains (trace (run sch (send_loop_sync sync i ps st))) =
       drains (trace st) +
         (if map_of (sync (length ps - 1) @ sch) (last_callback ps) = Some None then 1 else 0)"
proof (induction sync i ps st rule: send_loop_sync.induct)
  case (1 sync i ps st)
  let ?s1 = "send_packet i ps st"
  let ?s2 = "run (sync i) ?s1"
  have lt: "i < length ps" by (rule "1.prems"(3))
  have unfold: "send_loop_sync sync i ps st = send_loop_sync sync (i + 1) ps ?s2"
    using lt by (subst send_loop_sync.simps) simp
  have w1: "\<not> writable ?s1"
    using "1.prems"(2) by simp
  have d1: "drains (trace ?s1) = drains (trace st)"
    by (simp add: trace_send_packet)
  show ?case
  proof (cases "Suc i = length ps")
    case True
    then have stop: "send_loop_sync sync (i + 1) ps ?s2 = ?s2"
      by (subst send_loop_sync.simps) simp
    have "length ps - 1 = i"
      using True by arith
    then have c: "last_callback ps = OnSent i True" and idx: "sync (length ps - 1) = sync i"
      by (simp_all only: last_callback_def)
    have p1: "filter isLast (pending ?s1) = [last_callback ps]"
      using "1.prems"(1) True by (simp add: pending_send_packet c)
    have eq: "run sch (send_loop_sync sync i ps st) = run (sync i @ sch) ?s1"
      by (simp only: unfold stop run_append)
    show ?thesis
      unfolding eq idx using run_one_last [OF p1 w1, of "sync i @ sch"] d1 by simp
  next
    case False
    with lt have lt': "i + 1 < length ps" by simp
    have p1: "filter isLast (pending ?s1) = []"
      using "1.prems"(1) False by (simp add: pending_send_packet)
    from run_no_last [OF p1, of "sync i"]
    have w2: "\<not> writable ?s2" and d2: "drains (trace ?s2) = drains (trace st)"
      using w1 d1 by simp_all
    have p2: "filter isLast (pending ?s2) = []"
      using p1 by (rule no_last_run)
    show ?thesis
      unfolding unfold using "1.IH" [OF lt p2 w2 lt'] d2 by simp
  qed
qed

lemma drains_emitted:
  "trace s' = trace s @ es \<Longrightarrow> drains (emitted s s') = drains (trace s') - drains (trace s)"
  by (simp add: emitted_def)

section \<open>A caller that honours writable\<close>

lemma doClose_fields [simp]:
  "writable (doClose fn st) = writable st" "pending (doClose fn st) = pending st"
  by (simp_all add: doClose_def socket_close_def Let_def split: option.splits)

lemma cooperative_last_callbacks:
  "cooperative st \<Longrightarrow>
     length (filter isLast (pending st)) \<le> 1 \<and>
     (writable st \<longrightarrow> filter isLast (pending st) = [])"
proof (induction rule: cooperative.induct)
  case (constructed st)
  then show ?case by simp
next
  case (sends st packets)
  then show ?case
    by (simp add: pending_send_last writable_send)
next
  case (completes st cb err)
  let ?ls = "filter isLast (pending st)"
  have rm: "filter isLast (pending (fire cb err st)) = remove1 cb ?ls"
    by (simp add: pending_fire filter_remove1)
  have len: "length (remove1 cb ?ls) \<le> 1"
    using completes.IH by (simp add: length_remove1)
  have "filter isLast (pending (fire cb err st)) = []" if w: "writable (fire cb err st)"
  proof (cases "writable st")
    case True
    with completes.IH rm show ?thesis by simp
  next
    case False
    with w have "cb \<in> set ?ls"
      by (simp add: writable_fire)
    with completes.IH have "?ls = [cb]"
      by (cases ?ls) auto
    with rm show ?thesis by simp
  qed
  with rm len show ?case by simp
next
  case (configures st c)
  then show ?case by simp
next
  case (closes st fn)
  then show ?case by simp
qed

lemma cooperative_idle_when_writable:
  "cooperative st \<Longrightarrow> writable st \<Longrightarrow> filter isLast (pending st) = []"
  by (simp add: cooperative_last_callbacks)

section \<open>The compression rule\<close>

lemma measured_payload_is_not_compressed:
  assumes "SocketSend d opts cb \<in> set (emitted st (send ps st))"
      and "perMessageDeflate st = Some t"
      and "below_threshold d t"
  shows "opts_compress opts = Some False"
proof -
  from assms(1) obtain k where "k < length ps"
    and mem: "SocketSend d opts cb \<in> set (packet_calls st (ps ! k) (batch_callback ps k))"
    by (auto simp: set_emitted_send)
  from mem assms(2,3) show ?thesis
    by (rule socket_send_in_packet_calls)
qed

text \<open>
  For a string, a \<open>Buffer\<close> and a typed array of single bytes the length that the inner
  \<open>send\<close> computes is the byte length, and a payload below the threshold is sent with
  \<open>compress = false\<close>.
\<close>

lemma payload_len_is_byteLength:
  "payload_len (WString s) = Some (byteLength (WString s))"
  "payload_len (WBuffer b) = Some (byteLength (WBuffer b))"
  "payload_len (WTypedArray 1 es) = Some (byteLength (WTypedArray 1 es))"
  by simp_all

lemma string_or_buffer_below_threshold_is_not_compressed:
  assumes "SocketSend d opts cb \<in> set (emitted st (send ps st))"
      and "perMessageDeflate st = Some t"
      and "payload_len d = Some (byteLength d)"
      and "int (byteLength d) < t"
  shows "opts_compress opts = Some False"
proof -
  from assms(3,4) have "below_threshold d t"
    by (simp add: below_threshold_def)
  with assms(1,2) show ?thesis
    by (rule measured_payload_is_not_compressed)
qed

section \<open>Claims\<close>

text \<open>
  C1. \<open>send\<close> leaves \<open>writable\<close> false. When no final-packet completion of an earlier batch
  is outstanding, then after any sequence of completions \<open>writable\<close> is true exactly if
  the batch is not empty and the completion callback of its last packet has been called,
  and was called without an error: it does not become true before that call, and not at
  all if that call reports an error. The condition holds whenever \<open>send\<close> is called
  while \<open>writable\<close> is true in a state reached by a caller that honours \<open>writable\<close>
  (\<open>cooperative_idle_when_writable\<close>).
\<close>

theorem send_writable_until_last_completion:
  "\<not> writable (send ps st) \<and>
   (filter isLast (pending st) = [] \<longrightarrow>
      (\<forall>sch. writable (run sch (send ps st)) =
               (ps \<noteq> [] \<and> map_of sch (last_callback ps) = Some None)))"
proof (intro conjI impI allI)
  show "\<not> writable (send ps st)" by (rule writable_send)
next
  fix sch
  assume idle: "filter isLast (pending st) = []"
  show "writable (run sch (send ps st)) =
          (ps \<noteq> [] \<and> map_of sch (last_callback ps) = Some None)"
  proof (cases "ps = []")
    case True
    with idle have "filter isLast (pending (send ps st)) = []"
      by (simp add: pending_send_last)
    from run_no_last [OF this, of sch] show ?thesis
      using True writable_send [of ps st] by simp
  next
    case False
    with idle have "filter isLast (pending (send ps st)) = [last_callback ps]"
      by (simp add: pending_send_last)
    from run_one_last [OF this writable_send, of sch] show ?thesis
      using False by simp
  qed
qed

theorem send_writable_until_last_completion_witness:
  "filter isLast (pending example_ws) = [] \<and>
   \<not> writable (send [plain_packet, pre_packet] example_ws) \<and>
   writable (run [(OnSent 0 False, None), (OnSent 1 True, None)]
               (send [plain_packet, pre_packet] example_ws)) \<and>
   \<not> writable (run [(OnSent 0 False, None)] (send [plain_packet, pre_packet] example_ws)) \<and>
   \<not> writable (run [(OnSent 0 False, None), (OnSent 1 True, Some (Error ''boom''))]
               (send [plain_packet, pre_packet] example_ws))"
proof -
  have idle: "filter isLast (pending example_ws) = []"
    by (simp add: example_ws_def)
  note inst = send_writable_until_last_completion
                [where ps = "[plain_packet, pre_packet]" and st = example_ws]
  from inst idle have completions:
    "writable (run sch (send [plain_packet, pre_packet] example_ws)) =
       (map_of sch (OnSent 1 True) = Some None)" for sch
    by (simp add: last_callback_def)
  from inst have "\<not> writable (send [plain_packet, pre_packet] example_ws)"
    by simp
  then show ?thesis
    using idle by (simp add: completions del: run.simps)
qed

text \<open>
  C6. When no final-packet completion of an earlier batch is outstanding, a batch and any
  sequence of completions add exactly one \<open>"drain"\<close> notification if the batch is not
  empty and the completion callback of its last packet was called without an error, and
  none otherwise.
\<close>

theorem drain_at_most_once_per_batch:
  "filter isLast (pending st) = [] \<Longrightarrow>
     drains (trace (run sch (send ps st))) =
       drains (trace st) + (if ps \<noteq> [] \<and> map_of sch (last_callback ps) = Some None then 1 else 0)"
proof (cases "ps = []")
  case True
  assume idle: "filter isLast (pending st) = []"
  with True have "filter isLast (pending (send ps st)) = []"
    by (simp add: pending_send_last)
  from run_no_last [OF this, of sch] show ?thesis
    using True by (simp add: drains_send)
next
  case False
  assume idle: "filter isLast (pending st) = []"
  with False have "filter isLast (pending (send ps st)) = [last_callback ps]"
    by (simp add: pending_send_last)
  from run_one_last [OF this writable_send, of sch] show ?thesis
    using False by (simp add: drains_send)
qed

theorem drain_at_most_once_per_batch_witness:
  "filter isLast (pending example_ws) = [] \<and>
   drains (trace (run [(OnSent 1 True, None), (OnSent 0 False, None), (OnSent 1 True, None)]
                    (send [plain_packet, pre_packet] example_ws))) = 1 \<and>
   drains (trace (run [(OnSent 0 False, None), (OnSent 1 True, Some (Error ''boom''))]
                    (send [plain_packet, pre_packet] example_ws))) = 0"
  using drain_at_most_once_per_batch
          [where ps = "[plain_packet, pre_packet]" and st = example_ws
             and sch = "[(OnSent 1 True, None), (OnSent 0 False, None), (OnSent 1 True, None)]"]
        drain_at_most_once_per_batch
          [where ps = "[plain_packet, pre_packet]" and st = example_ws
             and sch = "[(OnSent 0 False, None), (OnSent 1 True, Some (Error ''boom''))]"]
  by (simp add: example_ws_def last_callback_def drains_def)

text \<open>
  C2. A batch of \<open>N\<close> packets causes exactly \<open>N\<close> write invocations on the channel, and
  the \<open>k\<close>-th of them is the write of the \<open>k\<close>-th packet of the batch (a normal send, a
  verbatim pre-encoded-string send or a raw-frame injection, as the dispatch policy says),
  with the callback of iteration \<open>k\<close>.
\<close>

theorem send_writes_each_packet_once_in_order:
  "length (writes (emitted st (send ps st))) = length ps \<and>
   writes (emitted st (send ps st)) =
     map (\<lambda>(k, p). packet_write st p (batch_callback ps k)) (enumerate 0 ps)"
  by (simp add: writes_emitted_send map_enumerate_nth)

text \<open>
  C3. For a packet of a batch that carries a precomputed frame and no pre-encoded string:
  if compression is disabled and the adapter has a callable raw-frame entry point, the
  write of the packet is the injection of that frame and the codec is not invoked for the
  packet; if compression is enabled, the codec is invoked for the packet and the write is
  the adapter's normal \<open>send\<close> of the encoded payload (with \<open>compress\<close> set to false
  when the test of the inner \<open>send\<close> finds the payload below the threshold).
\<close>

theorem fast_path_only_without_compression:
  assumes "i < length ps"
      and "options (ps ! i) = Some opt"
      and "wsPreEncoded opt = None"
      and "wsPreEncodedFrame opt = Some f"
  shows "(perMessageDeflate st = None \<and> sendFrame_callable st \<longrightarrow>
            writes (emitted st (send ps st)) ! i = SenderSendFrame f (batch_callback ps i) \<and>
            (\<forall>sb. EncodePacket (ps ! i) sb \<notin> set (emitted st (send ps st)))) \<and>
         (\<forall>t. perMessageDeflate st = Some t \<longrightarrow>
            EncodePacket (ps ! i) (supportsBinary st) \<in> set (emitted st (send ps st)) \<and>
            writes (emitted st (send ps st)) ! i =
              SocketSend (encodePacket st (ps ! i) (supportsBinary st))
                \<lparr>opts_compress =
                   (if below_threshold (encodePacket st (ps ! i) (supportsBinary st)) t
                    then Some False else compress opt)\<rparr>
                (batch_callback ps i))"
proof (intro conjI impI allI)
  assume "perMessageDeflate st = None \<and> sendFrame_callable st"
  then have fast: "fast_path_eligible st (ps ! i)"
    using assms by (simp add: fast_path_eligible_def pre_encoded_frame_def)
  then show "writes (emitted st (send ps st)) ! i = SenderSendFrame f (batch_callback ps i)"
    using assms by (simp add: nth_writes_send packet_write_def pre_encoded_string_def pre_encoded_frame_def)
  from fast have "\<not> uses_codec st (ps ! i)"
    by (simp add: uses_codec_def)
  then show "EncodePacket (ps ! i) sb \<notin> set (emitted st (send ps st))" for sb
    by (simp add: encode_in_emitted_send)
next
  fix t
  assume on: "perMessageDeflate st = Some t"
  then have codec: "uses_codec st (ps ! i)"
    using assms by (simp add: uses_codec_def fast_path_eligible_def pre_encoded_string_def)
  then show "EncodePacket (ps ! i) (supportsBinary st) \<in> set (emitted st (send ps st))"
    using assms(1) by (simp add: encode_in_emitted_send)
  show "writes (emitted st (send ps st)) ! i =
          SocketSend (encodePacket st (ps ! i) (supportsBinary st))
            \<lparr>opts_compress =
               (if below_threshold (encodePacket st (ps ! i) (supportsBinary st)) t
                then Some False else compress opt)\<rparr>
            (batch_callback ps i)"
    using assms on
    by (simp add: nth_writes_send packet_write_def pre_encoded_string_def pre_encoded_frame_def
          fast_path_eligible_def standard_send_call_def)
qed

theorem fast_path_only_without_compression_witness:
  "2 < length example_batch \<and>
   options (example_batch ! 2) =
     Some \<lparr>compress = Some True, wsPreEncoded = None,
           wsPreEncodedFrame = Some [[129, 3], [52, 104, 105]]\<rparr> \<and>
   perMessageDeflate example_ws = None \<and> sendFrame_callable example_ws \<and>
   writes (emitted example_ws (send example_batch example_ws)) ! 2 =
     SenderSendFrame [[129, 3], [52, 104, 105]] (OnSent 2 True) \<and>
   EncodePacket frame_packet True \<notin> set (emitted example_ws (send example_batch example_ws)) \<and>
   perMessageDeflate example_ws_deflate = Some 1024 \<and>
   EncodePacket frame_packet True
     \<in> set (emitted example_ws_deflate (send example_batch example_ws_deflate)) \<and>
   writes (emitted example_ws_deflate (send example_batch example_ws_deflate)) ! 2 =
     SocketSend (WString ''4hi'') \<lparr>opts_compress = Some False\<rparr> (OnSent 2 True)"
proof -
  let ?opt = "\<lparr>compress = Some True, wsPreEncoded = None,
               wsPreEncodedFrame = Some [[129, 3], [52, 104, 105]]\<rparr>"
  have h1: "2 < length example_batch"
    by (simp add: example_batch_def)
  have h2: "options (example_batch ! 2) = Some ?opt"
    by (simp add: example_batch_def frame_packet_def)
  have h3: "wsPreEncoded ?opt = None" and h4: "wsPreEncodedFrame ?opt = Some [[129, 3], [52, 104, 105]]"
    by simp_all
  have off: "perMessageDeflate example_ws = None \<and> sendFrame_callable example_ws"
    by (simp add: example_ws_def)
  have on: "perMessageDeflate example_ws_deflate = Some 1024"
    by (simp add: example_ws_deflate_def)
  from fast_path_only_without_compression [OF h1 h2 h3 h4, of example_ws] off
  have a: "writes (emitted example_ws (send example_batch example_ws)) ! 2 =
             SenderSendFrame [[129, 3], [52, 104, 105]] (OnSent 2 True)"
    and b: "EncodePacket frame_packet True \<notin> set (emitted example_ws (send example_batch example_ws))"
    by (simp_all add: batch_callback_def example_defs)
  from fast_path_only_without_compression [OF h1 h2 h3 h4, of example_ws_deflate] on
  have c: "EncodePacket frame_packet True
             \<in> set (emitted example_ws_deflate (send example_batch example_ws_deflate))"
    and d: "writes (emitted example_ws_deflate (send example_batch example_ws_deflate)) ! 2 =
              SocketSend (WString ''4hi'') \<lparr>opts_compress = Some False\<rparr> (OnSent 2 True)"
    by (simp_all add: batch_callback_def example_defs)
  from h1 h2 off on a b c d show ?thesis by blast
qed

text \<open>
  C4. The rule is about the byte length of the payload, but the inner \<open>send\<close> measures a
  payload that is not a string by its \<open>length\<close> property, which an \<open>ArrayBuffer\<close> does not
  have: \<open>len\<close> is \<open>undefined\<close>, the test \<open>len < threshold\<close> is false and the flag that the
  packet requested is kept. With threshold 1024, a packet that requests \<open>compress: true\<close>
  and whose encoded payload is an \<open>ArrayBuffer\<close> of 3 bytes reaches the adapter's \<open>send\<close>
  with \<open>compress = true\<close>, where step 6 of the specification gives \<open>false\<close>. (For
  strings and \<open>Buffer\<close>s the rule holds:
  \<open>string_or_buffer_below_threshold_is_not_compressed\<close>.)
\<close>

theorem array_buffer_below_threshold_keeps_compress:
  "emitted example_ws_deflate (send [binary_packet] example_ws_deflate) =
     [EncodePacket binary_packet True,
      SocketSend (WArrayBuffer [1, 2, 3]) \<lparr>opts_compress = Some True\<rparr> (OnSent 0 True)] \<and>
   perMessageDeflate example_ws_deflate = Some 1024 \<and>
   int (byteLength (WArrayBuffer [1, 2, 3])) < 1024 \<and>
   spec_compress example_ws_deflate (Some True) (WArrayBuffer [1, 2, 3]) = Some False"
  by (simp add: emitted_send dispatch_defs batch_callback_def below_threshold_def
        spec_compress_def example_defs binary_packet_def)

text \<open>
  C5. For a packet of a batch whose \<open>options.wsPreEncoded\<close> is a string, the write of the
  packet is the adapter's \<open>send\<close> of exactly that string, and the codec is not invoked
  for the packet, whether or not the packet carries a frame, the adapter has a raw-frame
  entry point or compression is enabled.
\<close>

theorem pre_encoded_string_is_sent_verbatim:
  assumes "i < length ps"
      and "options (ps ! i) = Some opt"
      and "wsPreEncoded opt = Some x"
  shows "writes (emitted st (send ps st)) ! i =
           SocketSend (WString x)
             \<lparr>opts_compress =
                (case perMessageDeflate st of
                   Some t \<Rightarrow> if int (length x) < t then Some False else compress opt
                 | None \<Rightarrow> compress opt)\<rparr>
             (batch_callback ps i) \<and>
         (\<forall>sb. EncodePacket (ps ! i) sb \<notin> set (emitted st (send ps st)))"
proof
  show "writes (emitted st (send ps st)) ! i =
           SocketSend (WString x)
             \<lparr>opts_compress =
                (case perMessageDeflate st of
                   Some t \<Rightarrow> if int (length x) < t then Some False else compress opt
                 | None \<Rightarrow> compress opt)\<rparr>
             (batch_callback ps i)"
    using assms
    by (simp add: nth_writes_send packet_write_def pre_encoded_string_def standard_send_call_def
          split: option.splits)
  have "\<not> uses_codec st (ps ! i)"
    using assms by (simp add: uses_codec_def pre_encoded_string_def)
  then show "\<forall>sb. EncodePacket (ps ! i) sb \<notin> set (emitted st (send ps st))"
    by (simp add: encode_in_emitted_send)
qed

theorem pre_encoded_string_is_sent_verbatim_witness:
  "1 < length example_batch \<and>
   options (example_batch ! 1) =
     Some \<lparr>compress = Some True, wsPreEncoded = Some ''X'',
           wsPreEncodedFrame = Some [[129, 1, 88]]\<rparr> \<and>
   sendFrame_callable example_ws \<and> perMessageDeflate example_ws = None \<and>
   writes (emitted example_ws (send example_batch example_ws)) ! 1 =
     SocketSend (WString ''X'') \<lparr>opts_compress = Some True\<rparr> (OnSent 1 False) \<and>
   (\<forall>sb. EncodePacket pre_packet sb \<notin> set (emitted example_ws (send example_batch example_ws)))"
proof -
  let ?opt = "\<lparr>compress = Some True, wsPreEncoded = Some ''X'',
               wsPreEncodedFrame = Some [[129, 1, 88]]\<rparr>"
  have h1: "1 < length example_batch"
    by (simp add: example_batch_def)
  have h2: "options (example_batch ! 1) = Some ?opt"
    by (simp add: example_batch_def pre_packet_def)
  have h3: "wsPreEncoded ?opt = Some ''X''"
    by simp
  have off: "sendFrame_callable example_ws \<and> perMessageDeflate example_ws = None"
    by (simp add: example_ws_def)
  from pre_encoded_string_is_sent_verbatim [OF h1 h2 h3, of example_ws] off
  have "writes (emitted example_ws (send example_batch example_ws)) ! 1 =
          SocketSend (WString ''X'') \<lparr>opts_compress = Some True\<rparr> (OnSent 1 False) \<and>
        (\<forall>sb. EncodePacket pre_packet sb \<notin> set (emitted example_ws (send example_batch example_ws)))"
    by (simp add: batch_callback_def example_defs)
  with h1 h2 off show ?thesis by blast
qed

text \<open>
  C10. For a packet of a batch whose \<open>options.wsPreEncoded\<close> is a string shorter than
  the threshold while compression is enabled, the string is sent with
  \<open>compress = false\<close>.
\<close>

theorem pre_encoded_string_below_threshold:
  assumes "i < length ps"
      and "options (ps ! i) = Some opt"
      and "wsPreEncoded opt = Some x"
      and "perMessageDeflate st = Some t"
      and "int (length x) < t"
  shows "writes (emitted st (send ps st)) ! i =
           SocketSend (WString x) \<lparr>opts_compress = Some False\<rparr> (batch_callback ps i)"
  using assms
  by (simp add: nth_writes_send packet_write_def pre_encoded_string_def standard_send_call_def)

theorem pre_encoded_string_below_threshold_witness:
  "1 < length example_batch \<and>
   options (example_batch ! 1) =
     Some \<lparr>compress = Some True, wsPreEncoded = Some ''X'',
           wsPreEncodedFrame = Some [[129, 1, 88]]\<rparr> \<and>
   perMessageDeflate example_ws_deflate = Some 1024 \<and>
   int (length ''X'') < 1024 \<and>
   writes (emitted example_ws_deflate (send example_batch example_ws_deflate)) ! 1 =
     SocketSend (WString ''X'') \<lparr>opts_compress = Some False\<rparr> (OnSent 1 False)"
proof -
  let ?opt = "\<lparr>compress = Some True, wsPreEncoded = Some ''X'',
               wsPreEncodedFrame = Some [[129, 1, 88]]\<rparr>"
  have h1: "1 < length example_batch"
    by (simp add: example_batch_def)
  have h2: "options (example_batch ! 1) = Some ?opt"
    by (simp add: example_batch_def pre_packet_def)
  have h3: "wsPreEncoded ?opt = Some ''X''"
    by simp
  have h4: "perMessageDeflate example_ws_deflate = Some 1024"
    by (simp add: example_ws_deflate_def)
  have h5: "int (length ''X'') < 1024"
    by simp
  from pre_encoded_string_below_threshold [OF h1 h2 h3 h4 h5]
  have "writes (emitted example_ws_deflate (send example_batch example_ws_deflate)) ! 1 =
          SocketSend (WString ''X'') \<lparr>opts_compress = Some False\<rparr> (OnSent 1 False)"
    by (simp add: batch_callback_def example_defs)
  with h1 h2 h4 h5 show ?thesis by blast
qed

text \<open>
  C7. \<open>polling\<close> constructs the JSON-with-padding variant with the request when the
  request's query attribute \<open>j\<close> is a string, and the plain long-polling variant with
  the request otherwise (also when \<open>j\<close> is absent). \<open>polling\<close> reads nothing but the
  request it is given, so each call decides anew: the example calls it for requests with
  and without \<open>j\<close>, in both orders.
\<close>

theorem polling_dispatches_on_query_j:
  "((\<exists>s. query req ''j'' = Some (QString s)) \<longrightarrow> polling req = JSONP req) \<and>
   ((\<forall>s. query req ''j'' \<noteq> Some (QString s)) \<longrightarrow> polling req = XHR req)"
proof (intro conjI impI)
  assume "\<exists>s. query req ''j'' = Some (QString s)"
  then show "polling req = JSONP req"
    by (auto simp: polling_def)
next
  assume no: "\<forall>s. query req ''j'' \<noteq> Some (QString s)"
  have "\<not> typeof_string (query req ''j'')"
  proof (cases "query req ''j''")
    case None
    then show ?thesis by simp
  next
    case (Some v)
    with no show ?thesis by (cases v) simp_all
  qed
  then show "polling req = XHR req"
    by (simp add: polling_def)
qed

theorem polling_dispatches_on_query_j_witness:
  "query request_j3 ''j'' = Some (QString ''3'') \<and>
   polling request_j3 = JSONP request_j3 \<and>
   query request_plain ''j'' = None \<and>
   polling request_plain = XHR request_plain \<and>
   query request_j_twice ''j'' = Some (QArray [''1'', ''2'']) \<and>
   polling request_j_twice = XHR request_j_twice \<and>
   map polling [request_j3, request_plain] = [JSONP request_j3, XHR request_plain] \<and>
   map polling [request_plain, request_j3] = [XHR request_plain, JSONP request_j3]"
proof -
  have q1: "query request_j3 ''j'' = Some (QString ''3'')"
    by (simp add: request_j3_def)
  have q2: "query request_plain ''j'' = None"
    by (simp add: request_plain_def)
  have q3: "query request_j_twice ''j'' = Some (QArray [''1'', ''2''])"
    by (simp add: request_j_twice_def)
  from polling_dispatches_on_query_j [of request_j3] q1
  have a: "polling request_j3 = JSONP request_j3" by simp
  from polling_dispatches_on_query_j [of request_plain] q2
  have b: "polling request_plain = XHR request_plain" by simp
  from polling_dispatches_on_query_j [of request_j_twice] q3
  have c: "polling request_j_twice = XHR request_j_twice" by simp
  from q1 q2 q3 a b c show ?thesis by simp
qed

text \<open>
  C8. \<open>doClose(fn)\<close> calls the adapter's \<open>close()\<close> once and then, if a callback was
  supplied, that callback once, and nothing else; a \<open>"close"\<close> event that the adapter
  emits afterwards only runs the base close handler, so the counts stay the same.
\<close>

theorem doClose_closes_once_then_calls_back:
  "emitted st (doClose fn st) = SocketClose # (case fn of None \<Rightarrow> [] | Some f \<Rightarrow> [CallFn f]) \<and>
   count_list (emitted st (doClose fn st)) SocketClose = 1 \<and>
   count_list (emitted st (doClose fn st)) (CallFn f) = (if fn = Some f then 1 else 0) \<and>
   emitted (doClose fn st) (socket_emits_close (doClose fn st)) =
     (if close_listener st then [OnClose] else []) \<and>
   count_list (emitted st (socket_emits_close (doClose fn st))) SocketClose = 1 \<and>
   count_list (emitted st (socket_emits_close (doClose fn st))) (CallFn f) =
     (if fn = Some f then 1 else 0)"
  by (cases fn)
     (simp_all add: doClose_def socket_close_def socket_emits_close_def onClose_def emitted_def)

text \<open>
  C9. Whatever completions the adapter performs while the loop runs and afterwards,
  errors included, every packet of the batch is still written, in order. An error
  reported by the completion callback of a non-final packet reaches
  \<open>onError("write error", err.stack)\<close>. And when no final-packet completion of an earlier
  batch is outstanding and the callback of the last packet is called without an error,
  \<open>writable\<close> is true and one \<open>"drain"\<close> has been emitted, whatever the other callbacks
  of the batch reported.
\<close>

theorem earlier_errors_do_not_stop_the_batch:
  "writes (emitted st (run sch (send_sync sync ps st))) =
     map (\<lambda>(k, p). packet_write st p (batch_callback ps k)) (enumerate 0 ps) \<and>
   (\<forall>k e. Suc k < length ps \<and>
          map_of (concat (map sync [k..<length ps]) @ sch) (batch_callback ps k) = Some (Some e) \<longrightarrow>
          OnError ''write error'' (stack e) \<in> set (emitted st (run sch (send_sync sync ps st)))) \<and>
   (filter isLast (pending st) = [] \<and> ps \<noteq> [] \<and>
    map_of (sync (length ps - 1) @ sch) (last_callback ps) = Some None \<longrightarrow>
      writable (run sch (send_sync sync ps st)) \<and>
      drains (emitted st (run sch (send_sync sync ps st))) = 1)"
proof (intro conjI allI impI)
  show "writes (emitted st (run sch (send_sync sync ps st))) =
          map (\<lambda>(k, p). packet_write st p (batch_callback ps k)) (enumerate 0 ps)"
    by (simp add: writes_send_sync_run map_enumerate_nth)
next
  fix k e
  assume "Suc k < length ps \<and>
    map_of (concat (map sync [k..<length ps]) @ sch) (batch_callback ps k) = Some (Some e)"
  then have k: "k < length ps"
    and m: "map_of (concat (map sync [k..<length ps]) @ sch) (batch_callback ps k) = Some (Some e)"
    by simp_all
  from error_routed_loop [OF _ k m, of 0 "st\<lparr>writable := False\<rparr>"]
  obtain es where "trace (run sch (send_sync sync ps st)) = trace st @ es"
      "OnError ''write error'' (stack e) \<in> set es"
    by (auto simp: send_sync_def)
  then show "OnError ''write error'' (stack e) \<in> set (emitted st (run sch (send_sync sync ps st)))"
    by (simp add: emitted_def)
next
  assume a: "filter isLast (pending st) = [] \<and> ps \<noteq> [] \<and>
    map_of (sync (length ps - 1) @ sch) (last_callback ps) = Some None"
  then have idle: "filter isLast (pending (st\<lparr>writable := False\<rparr>)) = []"
    and ne: "0 < length ps" and nw: "\<not> writable (st\<lparr>writable := False\<rparr>)"
    by simp_all
  from last_completion_loop [OF idle nw ne, of sch sync] a
  have w: "writable (run sch (send_sync sync ps st))"
    and d: "drains (trace (run sch (send_sync sync ps st))) = drains (trace st) + 1"
    by (simp_all add: send_sync_def)
  from w show "writable (run sch (send_sync sync ps st))" .
  obtain es where "trace (run sch (send_sync sync ps st)) = trace st @ es"
    using trace_run_send_loop_sync_grows [of sch sync 0 ps "st\<lparr>writable := False\<rparr>"]
    by (auto simp: send_sync_def)
  from drains_emitted [OF this] d
  show "drains (emitted st (run sch (send_sync sync ps st))) = 1"
    by simp
qed

theorem earlier_errors_do_not_stop_the_batch_witness:
  "Suc 0 < length example_batch \<and>
   map_of (concat (map example_sync [0..<length example_batch]) @ example_schedule)
     (batch_callback example_batch 0) = Some (Some (Error ''boom'')) \<and>
   Suc 1 < length example_batch \<and>
   map_of (concat (map example_sync [1..<length example_batch]) @ example_schedule)
     (batch_callback example_batch 1) = Some (Some (Error ''late'')) \<and>
   filter isLast (pending example_ws) = [] \<and> example_batch \<noteq> [] \<and>
   map_of (example_sync (length example_batch - 1) @ example_schedule)
     (last_callback example_batch) = Some None \<and>
   length (writes (emitted example_ws
            (run example_schedule (send_sync example_sync example_batch example_ws)))) = 3 \<and>
   OnError ''write error'' ''boom''
     \<in> set (emitted example_ws
              (run example_schedule (send_sync example_sync example_batch example_ws))) \<and>
   OnError ''write error'' ''late''
     \<in> set (emitted example_ws
              (run example_schedule (send_sync example_sync example_batch example_ws))) \<and>
   writable (run example_schedule (send_sync example_sync example_batch example_ws)) \<and>
   drains (emitted example_ws
             (run example_schedule (send_sync example_sync example_batch example_ws))) = 1 \<and>
   writable (run example_schedule (send example_batch example_ws))"
proof -
  let ?final = "run example_schedule (send_sync example_sync example_batch example_ws)"
  have len: "length example_batch = 3"
    by (simp add: example_batch_def)
  have h0: "Suc 0 < length example_batch \<and>
      map_of (concat (map example_sync [0..<length example_batch]) @ example_schedule)
        (batch_callback example_batch 0) = Some (Some (Error ''boom''))"
    by (simp add: len upt_conv_Cons example_sync_def example_schedule_def batch_callback_def)
  have h1: "Suc 1 < length example_batch \<and>
      map_of (concat (map example_sync [1..<length example_batch]) @ example_schedule)
        (batch_callback example_batch 1) = Some (Some (Error ''late''))"
    by (simp add: len upt_conv_Cons example_sync_def example_schedule_def batch_callback_def)
  have h2: "filter isLast (pending example_ws) = [] \<and> example_batch \<noteq> [] \<and>
      map_of (example_sync (length example_batch - 1) @ example_schedule)
        (last_callback example_batch) = Some None"
    by (simp add: len example_ws_def example_batch_def example_sync_def example_schedule_def
          last_callback_def)
  have h3: "filter isLast (pending example_ws) = [] \<and> example_batch \<noteq> [] \<and>
      map_of ((\<lambda>_. []) (length example_batch - 1) @ example_schedule)
        (last_callback example_batch) = Some None"
    by (simp add: len example_ws_def example_batch_def example_schedule_def last_callback_def)
  note inst = earlier_errors_do_not_stop_the_batch
                [where st = example_ws and ps = example_batch and sync = example_sync
                   and sch = example_schedule]
  note async = earlier_errors_do_not_stop_the_batch
                [where st = example_ws and ps = example_batch and sync = "\<lambda>_. []"
                   and sch = example_schedule]
  from inst have w: "length (writes (emitted example_ws ?final)) = 3"
    by (simp add: len)
  from inst h0 have e0: "OnError ''write error'' ''boom'' \<in> set (emitted example_ws ?final)"
    by (metis js_error.sel)
  from inst h1 have e1: "OnError ''write error'' ''late'' \<in> set (emitted example_ws ?final)"
    by (metis js_error.sel)
  from inst h2 have f: "writable ?final \<and> drains (emitted example_ws ?final) = 1"
    by blast
  from async h3 have g: "writable (run example_schedule (send example_batch example_ws))"
    unfolding send_sync_none by blast
  from h0 h1 h2 w e0 e1 f g show ?thesis
    by blast
qed

end
